theory Spec2Isabelle
  imports Main "HOL-Library.Word"
begin

section \<open>The data model of ts\_hashmap.c\<close>

text \<open>
  The C source works on \<^verbatim>\<open>int\<close> keys and values. They are 32-bit words here; the
  cast \<^verbatim>\<open>(unsigned int) key\<close> is then the identity on the bit pattern, and
  \<^verbatim>\<open>%\<close> on unsigned operands is \<open>mod\<close> on words.
\<close>

type_synonym int32 = "32 word"

text \<open>\<^verbatim>\<open>INT_MAX\<close> of limits.h, for a 32-bit \<^verbatim>\<open>int\<close>: the value returned for "not found".\<close>

definition INT_MAX :: int32 where
  "INT_MAX = 0x7FFFFFFF"

text \<open>
  Modelled from the spec: ts\_hashmap.h, which declares \<^verbatim>\<open>ts_entry_t\<close> and
  \<^verbatim>\<open>ts_hashmap_t\<close>, is missing. An entry holds a key, a value and the link to the next
  entry of its chain (or none). A value of \<open>ts_entry_p\<close> is what a \<^verbatim>\<open>ts_entry_t *\<close>
  points to: \<open>NULL\<close>, or an entry with its key, its value and its \<^verbatim>\<open>next\<close> pointer.
  Every entry is allocated by \<^verbatim>\<open>put\<close> and linked once, so chains share no cells.
\<close>

datatype ts_entry_p = NULL | Entry int32 int32 ts_entry_p

text \<open>
  Modelled from the spec: the map has the bucket array \<^verbatim>\<open>table\<close>, the operation count
  \<^verbatim>\<open>numOps\<close>, the \<^verbatim>\<open>capacity\<close> and the entry count \<^verbatim>\<open>size\<close> (field \<open>size_m\<close>
  here). The capacity is the \<^verbatim>\<open>int\<close> that \<^verbatim>\<open>initmap\<close> receives.

  \<^verbatim>\<open>numOps\<close> is a machine integer: an \<^verbatim>\<open>int\<close> of 32 bits, as every integer that the
  source declares. It is incremented on every call, so \<^verbatim>\<open>numOps ++\<close> wraps around
  here at 32 bits, as it does in the compiled program (the overflow of a signed
  \<^verbatim>\<open>int\<close> is undefined in ISO C). \<open>sint\<close> reads the field as the \<^verbatim>\<open>int\<close> it is.

  \<^verbatim>\<open>size\<close> counts the live entries. It is an integer here, which is exact as long as
  the count fits the declared type.

  The array \<^verbatim>\<open>bucketLocks\<close> has the length of \<^verbatim>\<open>table\<close>; the locks hold no data, and
  what the operations do with them is recorded as the events below.
\<close>

record ts_hashmap_t =
  table :: "ts_entry_p list"
  numOps :: int32
  capacity :: int32
  size_m :: int

text \<open>
  The mutexes of a map, and the calls \<^verbatim>\<open>pthread_mutex_lock\<close> and
  \<^verbatim>\<open>pthread_mutex_unlock\<close> an operation makes, in program order.
\<close>

datatype mutex = BucketLock nat | SizeLock | OpLock

datatype event = Lock mutex | Unlock mutex

section \<open>initmap\<close>

text \<open>
  The loop of \<^verbatim>\<open>initmap\<close>: \<^verbatim>\<open>for (int i = 0; i < capacity; i++) table[i] = NULL\<close>,
  the comparison being one of signed integers. Slot \<open>i\<close> is the next one of the array
  filled so far.
\<close>

function initmap_loop :: "int \<Rightarrow> int \<Rightarrow> ts_entry_p list \<Rightarrow> ts_entry_p list" where
  "initmap_loop i cap tbl =
     (if i < cap then initmap_loop (i + 1) cap (tbl @ [NULL]) else tbl)"
  by pat_completeness auto
termination
  by (relation "measure (\<lambda>(i, cap, tbl). nat (cap - i))") auto

text \<open>
  \<^verbatim>\<open>initmap\<close> checks neither its argument nor the results of \<^verbatim>\<open>malloc\<close>: it returns a
  map for every capacity. For a capacity that is not positive the loop body never runs
  and the map has no slot.
\<close>

definition initmap :: "int32 \<Rightarrow> ts_hashmap_t" where
  "initmap cap =
     \<lparr> table = initmap_loop 0 (sint cap) [], numOps = 0, capacity = cap, size_m = 0 \<rparr>"

section \<open>get\<close>

text \<open>The scan of \<^verbatim>\<open>get\<close>; \<^verbatim>\<open>returnValue\<close> starts as \<^verbatim>\<open>INT_MAX\<close>.\<close>

fun get_loop :: "int32 \<Rightarrow> ts_entry_p \<Rightarrow> int32" where
  "get_loop key NULL = INT_MAX"
| "get_loop key (Entry k v nxt) = (if key = k then v else get_loop key nxt)"

text \<open>
  An operation returns its result, the map after it and the lock events it made. It has
  no result (\<open>None\<close>) where the C program has no defined behaviour: the remainder by a
  zero capacity, and an index outside the two arrays.
\<close>

definition get :: "ts_hashmap_t \<Rightarrow> int32 \<Rightarrow> (int32 \<times> ts_hashmap_t \<times> event list) option" where
  "get m key =
     (if capacity m = 0 then None
      else
        let searchIndex = unat (key mod capacity m) in
        if length (table m) \<le> searchIndex then None
        else
          let returnValue = get_loop key (table m ! searchIndex) in
          Some (returnValue, m\<lparr>numOps := numOps m + 1\<rparr>,
            [Lock (BucketLock searchIndex), Unlock (BucketLock searchIndex),
             Lock OpLock, Unlock OpLock]))"

section \<open>put\<close>

text \<open>
  The \<^verbatim>\<open>while\<close> loop of \<^verbatim>\<open>put\<close>, entered on a chain that is not empty. It gives the
  chain after the loop, \<^verbatim>\<open>returnValue\<close> and \<^verbatim>\<open>madeNewBucket\<close>. On \<open>NULL\<close> the condition
  \<^verbatim>\<open>bucket != NULL\<close> fails and the loop leaves everything as it is.
\<close>

fun put_loop :: "int32 \<Rightarrow> int32 \<Rightarrow> ts_entry_p \<Rightarrow> ts_entry_p \<times> int32 \<times> bool" where
  "put_loop key val NULL = (NULL, INT_MAX, False)"
| "put_loop key val (Entry k v nxt) =
     (if key = k then (Entry k val nxt, v, False)
      else if nxt = NULL then (Entry k v (Entry key val NULL), INT_MAX, True)
      else
        (case put_loop key val nxt of
           (nxt', returnValue, madeNewBucket) \<Rightarrow> (Entry k v nxt', returnValue, madeNewBucket)))"

definition put :: "ts_hashmap_t \<Rightarrow> int32 \<Rightarrow> int32 \<Rightarrow> (int32 \<times> ts_hashmap_t \<times> event list) option" where
  "put m key val =
     (if capacity m = 0 then None
      else
        let searchIndex = unat (key mod capacity m) in
        if length (table m) \<le> searchIndex then None
        else
          let bucket = table m ! searchIndex in
          (case (if bucket = NULL then (Entry key val NULL, INT_MAX, True)
                 else put_loop key val bucket) of
             (bucket', returnValue, madeNewBucket) \<Rightarrow>
               let m1 = m\<lparr>table := (table m)[searchIndex := bucket']\<rparr>;
                   m2 = (if madeNewBucket then m1\<lparr>size_m := size_m m1 + 1\<rparr> else m1);
                   m3 = m2\<lparr>numOps := numOps m2 + 1\<rparr>
               in Some (returnValue, m3,
                    [Lock (BucketLock searchIndex), Unlock (BucketLock searchIndex)] @
                    (if madeNewBucket then [Lock SizeLock, Unlock SizeLock] else []) @
                    [Lock OpLock, Unlock OpLock])))"

section \<open>del\<close>

text \<open>
  The loop of \<^verbatim>\<open>del\<close> that looks one entry ahead, entered on an entry whose key is not
  the one searched. It gives the chain after the loop, \<^verbatim>\<open>returnValue\<close> and
  \<^verbatim>\<open>bucketWasDeleted\<close>. \<^verbatim>\<open>del\<close> returns before the loop when the chain is empty, so
  the loop has no equation for \<open>NULL\<close>.
\<close>

fun del_loop :: "int32 \<Rightarrow> ts_entry_p \<Rightarrow> ts_entry_p \<times> int32 \<times> bool" where
  "del_loop key (Entry k v NULL) = (Entry k v NULL, INT_MAX, False)"
| "del_loop key (Entry k v (Entry k' v' nxt')) =
     (if key = k' then (Entry k v nxt', v', True)
      else
        (case del_loop key (Entry k' v' nxt') of
           (nxt, returnValue, bucketWasDeleted) \<Rightarrow> (Entry k v nxt, returnValue, bucketWasDeleted)))"

definition del :: "ts_hashmap_t \<Rightarrow> int32 \<Rightarrow> (int32 \<times> ts_hashmap_t \<times> event list) option" where
  "del m key =
     (if capacity m = 0 then None
      else
        let searchIndex = unat (key mod capacity m);
            m1 = m\<lparr>numOps := numOps m + 1\<rparr>
        in
        if length (table m1) \<le> searchIndex then None
        else
          (case table m1 ! searchIndex of
             NULL \<Rightarrow>
               Some (INT_MAX, m1,
                 [Lock OpLock, Unlock OpLock,
                  Lock (BucketLock searchIndex), Unlock (BucketLock searchIndex)])
           | Entry k v nxt \<Rightarrow>
               if k = key then
                 let m2 = m1\<lparr>table := (table m1)[searchIndex := (if nxt = NULL then NULL else nxt)]\<rparr>;
                     m3 = m2\<lparr>size_m := size_m m2 - 1\<rparr>
                 in Some (v, m3,
                      [Lock OpLock, Unlock OpLock,
                       Lock (BucketLock searchIndex), Unlock (BucketLock searchIndex),
                       Lock SizeLock, Unlock SizeLock])
               else
                 (case del_loop key (Entry k v nxt) of
                    (bucket', returnValue, bucketWasDeleted) \<Rightarrow>
                      let m2 = m1\<lparr>table := (table m1)[searchIndex := bucket']\<rparr>;
                          m3 = (if bucketWasDeleted then m2\<lparr>size_m := size_m m2 - 1\<rparr> else m2)
                      in Some (returnValue, m3,
                           [Lock OpLock, Unlock OpLock, Lock (BucketLock searchIndex)] @
                           (if bucketWasDeleted then [Lock SizeLock, Unlock SizeLock] else []) @
                           [Unlock (BucketLock searchIndex)]))))"

section \<open>Sequences of calls\<close>

text \<open>A client's call, and a run of calls from a map; a run stops where a call has no result.\<close>

datatype call = Get int32 | Put int32 int32 | Del int32

fun do_call :: "ts_hashmap_t \<Rightarrow> call \<Rightarrow> (int32 \<times> ts_hashmap_t \<times> event list) option" where
  "do_call m (Get key) = get m key"
| "do_call m (Put key val) = put m key val"
| "do_call m (Del key) = del m key"

fun run :: "ts_hashmap_t \<Rightarrow> call list \<Rightarrow> ts_hashmap_t option" where
  "run m [] = Some m"
| "run m (c # cs) = (case do_call m c of None \<Rightarrow> None | Some (r, m', es) \<Rightarrow> run m' cs)"

section \<open>What the claims speak of\<close>

text \<open>The keys of a chain in chain order, and the number of entries of a map.\<close>

fun chain_keys :: "ts_entry_p \<Rightarrow> int32 list" where
  "chain_keys NULL = []"
| "chain_keys (Entry k v nxt) = k # chain_keys nxt"

definition entry_count :: "ts_hashmap_t \<Rightarrow> nat" where
  "entry_count m = sum_list (map (\<lambda>c. length (chain_keys c)) (table m))"

text \<open>A key is stored when some chain of the table has an entry with it.\<close>

definition stored :: "ts_hashmap_t \<Rightarrow> int32 \<Rightarrow> bool" where
  "stored m key = (\<exists>c \<in> set (table m). key \<in> set (chain_keys c))"

text \<open>
  A map is well formed when its capacity is not zero and its table has as many slots as
  the capacity read as an unsigned number: every index the operations compute is then
  inside the table.
\<close>

definition wf_map :: "ts_hashmap_t \<Rightarrow> bool" where
  "wf_map m = (capacity m \<noteq> 0 \<and> length (table m) = unat (capacity m))"

text \<open>
  The invariant of the data model: the map is well formed, every key of chain \<open>i\<close> has
  index \<open>i\<close>, no chain has a key twice, and \<^verbatim>\<open>size\<close> counts the entries.
\<close>

definition map_inv :: "ts_hashmap_t \<Rightarrow> bool" where
  "map_inv m =
     (wf_map m \<and>
      (\<forall>i < length (table m). \<forall>k \<in> set (chain_keys (table m ! i)). unat k mod unat (capacity m) = i) \<and>
      (\<forall>c \<in> set (table m). distinct (chain_keys c)) \<and>
      size_m m = int (entry_count m))"

text \<open>
  The lock discipline: with the mutexes in \<open>held\<close> held, the events never bring the
  thread to hold two mutexes at once.
\<close>

fun one_at_a_time :: "mutex list \<Rightarrow> event list \<Rightarrow> bool" where
  "one_at_a_time held [] = True"
| "one_at_a_time held (Lock g # es) = (held = [] \<and> one_at_a_time (g # held) es)"
| "one_at_a_time held (Unlock g # es) = one_at_a_time (remove1 g held) es"

text \<open>The indices of the bucket locks taken, in order.\<close>

fun locked_buckets :: "event list \<Rightarrow> nat list" where
  "locked_buckets [] = []"
| "locked_buckets (Lock (BucketLock i) # es) = i # locked_buckets es"
| "locked_buckets (e # es) = locked_buckets es"

text \<open>
  Two functions on chains that the loops are compared with: \<open>chain_update\<close> overwrites
  the value of the first entry with the key, or appends a new entry; \<open>chain_remove\<close>
  unlinks the first entry with the key.
\<close>

fun chain_update :: "int32 \<Rightarrow> int32 \<Rightarrow> ts_entry_p \<Rightarrow> ts_entry_p" where
  "chain_update key val NULL = Entry key val NULL"
| "chain_update key val (Entry k v nxt) =
     (if key = k then Entry k val nxt else Entry k v (chain_update key val nxt))"

fun chain_remove :: "int32 \<Rightarrow> ts_entry_p \<Rightarrow> ts_entry_p" where
  "chain_remove key NULL = NULL"
| "chain_remove key (Entry k v nxt) =
     (if key = k then nxt else Entry k v (chain_remove key nxt))"

section \<open>The loops\<close>

lemma initmap_loop_replicate:
  "initmap_loop i cap tbl = tbl @ replicate (nat (cap - i)) NULL"
proof (induction i cap tbl rule: initmap_loop.induct)
  case (1 i cap tbl)
  show ?case
  proof (cases "i < cap")
    case True
    then have "nat (cap - i) = Suc (nat (cap - (i + 1)))"
      by simp
    with True "1" show ?thesis
      by (simp add: replicate_app_Cons_same del: initmap_loop.simps add: initmap_loop.simps [of i])
  next
    case False
    then show ?thesis by simp
  qed
qed

lemma table_initmap: "table (initmap cap) = replicate (nat (sint cap)) NULL"
  by (simp add: initmap_def initmap_loop_replicate del: initmap_loop.simps)

lemma put_loop_chain_update:
  "c \<noteq> NULL \<Longrightarrow>
   put_loop key val c = (chain_update key val c, get_loop key c, key \<notin> set (chain_keys c))"
  by (induction c) (auto split: prod.splits)

lemma del_loop_chain_remove:
  "key \<noteq> k \<Longrightarrow>
   del_loop key (Entry k v nxt) =
     (chain_remove key (Entry k v nxt), get_loop key (Entry k v nxt),
      key \<in> set (chain_keys (Entry k v nxt)))"
  by (induction nxt arbitrary: k v) (auto split: prod.splits)

section \<open>The operations on a well-formed map\<close>

lemma searchIndex_less: "cap \<noteq> 0 \<Longrightarrow> unat (key mod cap) < unat (cap :: int32)"
  by (simp add: unat_mod unat_gt_0)

lemma sint_pos_unat: "0 < sint (cap :: int32) \<Longrightarrow> nat (sint cap) = unat cap"
proof -
  assume pos: "0 < sint cap"
  have "sint cap < 2 ^ 32" using sint_lt [of cap] by simp
  with pos have "take_bit 32 (sint cap) = sint cap"
    by (simp add: take_bit_int_eq_self)
  then have "uint cap = sint cap"
    using uint_sint [of cap] by simp
  then show ?thesis by (simp add: unat_eq_nat_uint)
qed

lemma unat_sint_mod: "unat (key :: int32) = nat (sint key mod 2 ^ 32)"
  using uint_sint [of key] by (simp add: take_bit_eq_mod unat_eq_nat_uint)

lemma wf_initmap: "0 < sint cap \<Longrightarrow> wf_map (initmap cap)"
proof -
  assume pos: "0 < sint cap"
  then have "cap \<noteq> 0" by auto
  with pos show ?thesis
    by (simp add: wf_map_def table_initmap sint_pos_unat) (simp add: initmap_def)
qed

lemma get_wf:
  assumes "wf_map m"
  shows "get m key =
    Some (get_loop key (table m ! unat (key mod capacity m)), m\<lparr>numOps := numOps m + 1\<rparr>,
      [Lock (BucketLock (unat (key mod capacity m))), Unlock (BucketLock (unat (key mod capacity m))),
       Lock OpLock, Unlock OpLock])"
  using assms searchIndex_less [of "capacity m" key]
  by (simp add: get_def wf_map_def Let_def)

lemma put_wf:
  assumes "wf_map m"
  shows "put m key val =
    Some (get_loop key (table m ! unat (key mod capacity m)),
      m\<lparr>table := (table m)[unat (key mod capacity m) :=
            chain_update key val (table m ! unat (key mod capacity m))],
        size_m := (if key \<in> set (chain_keys (table m ! unat (key mod capacity m)))
                   then size_m m else size_m m + 1),
        numOps := numOps m + 1\<rparr>,
      [Lock (BucketLock (unat (key mod capacity m))), Unlock (BucketLock (unat (key mod capacity m)))] @
      (if key \<in> set (chain_keys (table m ! unat (key mod capacity m))) then []
       else [Lock SizeLock, Unlock SizeLock]) @
      [Lock OpLock, Unlock OpLock])"
proof (cases "table m ! unat (key mod capacity m) = NULL")
  case True
  with assms searchIndex_less [of "capacity m" key] show ?thesis
    by (simp add: put_def wf_map_def Let_def)
next
  case False
  with assms searchIndex_less [of "capacity m" key] show ?thesis
    by (simp add: put_def wf_map_def Let_def put_loop_chain_update)
qed

lemma del_wf:
  assumes "wf_map m"
  shows "\<exists>es. del m key =
    Some (get_loop key (table m ! unat (key mod capacity m)),
      m\<lparr>table := (table m)[unat (key mod capacity m) :=
            chain_remove key (table m ! unat (key mod capacity m))],
        size_m := (if key \<in> set (chain_keys (table m ! unat (key mod capacity m)))
                   then size_m m - 1 else size_m m),
        numOps := numOps m + 1\<rparr>, es)"
proof (cases "table m ! unat (key mod capacity m)")
  case NULL
  then have "(table m)[unat (key mod capacity m) := NULL] = table m"
    by (metis list_update_id)
  with NULL assms searchIndex_less [of "capacity m" key] show ?thesis
    by (simp add: del_def wf_map_def Let_def)
next
  case (Entry k v nxt)
  show ?thesis
  proof (cases "k = key")
    case True
    with Entry assms searchIndex_less [of "capacity m" key] show ?thesis
      by (simp add: del_def wf_map_def Let_def)
  next
    case False
    then have "key \<noteq> k" by simp
    note loop = del_loop_chain_remove [OF this, of v nxt]
    from False Entry assms searchIndex_less [of "capacity m" key] show ?thesis
      by (simp add: del_def wf_map_def Let_def loop del: del_loop.simps)
  qed
qed

section \<open>Chains\<close>

lemma get_loop_absent: "key \<notin> set (chain_keys c) \<Longrightarrow> get_loop key c = INT_MAX"
  by (induction c) auto

lemma get_loop_chain_update: "get_loop key (chain_update key val c) = val"
  by (induction c) auto

lemma chain_keys_chain_update:
  "chain_keys (chain_update key val c) =
     (if key \<in> set (chain_keys c) then chain_keys c else chain_keys c @ [key])"
  by (induction c) auto

lemma chain_keys_chain_remove: "chain_keys (chain_remove key c) = remove1 key (chain_keys c)"
  by (induction c) auto

lemma chain_remove_absent: "key \<notin> set (chain_keys c) \<Longrightarrow> chain_remove key c = c"
  by (induction c) auto

lemma get_loop_chain_remove:
  "distinct (chain_keys c) \<Longrightarrow> get_loop key (chain_remove key c) = INT_MAX"
  by (rule get_loop_absent) (simp add: chain_keys_chain_remove)

lemma distinct_chain_update:
  "distinct (chain_keys c) \<Longrightarrow> distinct (chain_keys (chain_update key val c))"
  by (simp add: chain_keys_chain_update)

lemma distinct_chain_remove:
  "distinct (chain_keys c) \<Longrightarrow> distinct (chain_keys (chain_remove key c))"
  by (simp add: chain_keys_chain_remove)

lemma length_chain_remove:
  "int (length (chain_keys (chain_remove key c))) =
     (if key \<in> set (chain_keys c) then int (length (chain_keys c)) - 1
      else int (length (chain_keys c)))"
  by (induction c) auto

section \<open>The invariant\<close>

lemma sum_list_map_update:
  "i < length xs \<Longrightarrow>
   int (sum_list (map f (xs[i := x]))) = int (sum_list (map f xs)) + int (f x) - int (f (xs ! i))"
  for f :: "'a \<Rightarrow> nat"
proof (induction xs arbitrary: i)
  case Nil
  then show ?case by simp
next
  case (Cons y ys)
  then show ?case by (cases i) auto
qed

lemma entry_count_update:
  "i < length (table m) \<Longrightarrow>
   int (entry_count (m\<lparr>table := (table m)[i := c]\<rparr>)) =
     int (entry_count m) + int (length (chain_keys c)) - int (length (chain_keys (table m ! i)))"
  by (simp add: entry_count_def sum_list_map_update)

lemma map_inv_initmap: "0 < sint cap \<Longrightarrow> map_inv (initmap cap)"
  using wf_initmap [of cap]
  by (simp add: map_inv_def entry_count_def table_initmap) (simp add: initmap_def)

lemma map_inv_slot:
  assumes "wf_map m" and "i < length (table m)"
    and placed: "\<forall>j < length (table m). \<forall>k \<in> set (chain_keys (table m ! j)). unat k mod unat (capacity m) = j"
    and dist: "\<forall>c \<in> set (table m). distinct (chain_keys c)"
    and c: "set (chain_keys c) \<subseteq> insert key (set (chain_keys (table m ! i)))" "distinct (chain_keys c)"
    and key: "unat key mod unat (capacity m) = i"
    and sz: "s = int (entry_count m) + int (length (chain_keys c)) - int (length (chain_keys (table m ! i)))"
  shows "map_inv (m\<lparr>table := (table m)[i := c], size_m := s, numOps := n\<rparr>)"
proof -
  let ?m' = "m\<lparr>table := (table m)[i := c], size_m := s, numOps := n\<rparr>"
  have wf: "wf_map ?m'"
    using assms(1) by (simp add: wf_map_def)
  have pl: "\<forall>j < length (table ?m'). \<forall>k \<in> set (chain_keys (table ?m' ! j)).
      unat k mod unat (capacity ?m') = j"
  proof (intro allI impI ballI)
    fix j k
    assume j: "j < length (table ?m')" and k: "k \<in> set (chain_keys (table ?m' ! j))"
    show "unat k mod unat (capacity ?m') = j"
    proof (cases "j = i")
      case True
      with k assms(2) have "k \<in> set (chain_keys c)" by simp
      with c(1) have "k = key \<or> k \<in> set (chain_keys (table m ! i))" by auto
      with key placed assms(2) True show ?thesis by auto
    next
      case False
      with k have "k \<in> set (chain_keys (table m ! j))" by simp
      with placed j show ?thesis by simp
    qed
  qed
  have di: "\<forall>c' \<in> set (table ?m'). distinct (chain_keys c')"
  proof
    fix c'
    assume "c' \<in> set (table ?m')"
    then have "c' \<in> insert c (set (table m))"
      using set_update_subset_insert [of "table m" i c] by auto
    with dist c(2) show "distinct (chain_keys c')" by auto
  qed
  have "int (entry_count ?m') = s"
    using entry_count_update [OF assms(2), of c] sz by (simp add: entry_count_def)
  with wf pl di show ?thesis
    by (simp add: map_inv_def)
qed

lemma map_inv_get:
  assumes "map_inv m" and "get m key = Some (r, m', es)"
  shows "map_inv m'"
proof -
  from assms(1) have "wf_map m" by (simp add: map_inv_def)
  from get_wf [OF this, of key] assms(2) have "m' = m\<lparr>numOps := numOps m + 1\<rparr>"
    by simp
  with assms(1) show ?thesis
    by (simp add: map_inv_def wf_map_def entry_count_def)
qed

lemma map_inv_put:
  assumes "map_inv m" and "put m key val = Some (r, m', es)"
  shows "map_inv m'"
proof -
  let ?i = "unat (key mod capacity m)"
  let ?c = "table m ! ?i"
  let ?s = "if key \<in> set (chain_keys ?c) then size_m m else size_m m + 1"
  from assms(1) have wf: "wf_map m" by (simp add: map_inv_def)
  then have i: "?i < length (table m)"
    using searchIndex_less [of "capacity m" key] by (simp add: wf_map_def)
  then have "?c \<in> set (table m)" by simp
  with assms(1) have dc: "distinct (chain_keys ?c)" by (simp add: map_inv_def)
  from put_wf [OF wf, of key val] assms(2)
  have m': "m' = m\<lparr>table := (table m)[?i := chain_update key val ?c], size_m := ?s,
      numOps := numOps m + 1\<rparr>"
    by simp
  show ?thesis
    unfolding m'
  proof (rule map_inv_slot [OF wf i])
    show "\<forall>j < length (table m). \<forall>k \<in> set (chain_keys (table m ! j)). unat k mod unat (capacity m) = j"
      using assms(1) by (simp add: map_inv_def)
    show "\<forall>c \<in> set (table m). distinct (chain_keys c)"
      using assms(1) by (simp add: map_inv_def)
    show "set (chain_keys (chain_update key val ?c)) \<subseteq> insert key (set (chain_keys ?c))"
      by (auto simp: chain_keys_chain_update)
    show "distinct (chain_keys (chain_update key val ?c))"
      using dc by (rule distinct_chain_update)
    show "unat key mod unat (capacity m) = ?i"
      by (simp add: unat_mod)
    show "?s = int (entry_count m) + int (length (chain_keys (chain_update key val ?c)))
        - int (length (chain_keys ?c))"
      using assms(1) by (simp add: map_inv_def chain_keys_chain_update)
  qed
qed

lemma map_inv_del:
  assumes "map_inv m" and "del m key = Some (r, m', es)"
  shows "map_inv m'"
proof -
  let ?i = "unat (key mod capacity m)"
  let ?c = "table m ! ?i"
  let ?s = "if key \<in> set (chain_keys ?c) then size_m m - 1 else size_m m"
  from assms(1) have wf: "wf_map m" by (simp add: map_inv_def)
  then have i: "?i < length (table m)"
    using searchIndex_less [of "capacity m" key] by (simp add: wf_map_def)
  then have "?c \<in> set (table m)" by simp
  with assms(1) have dc: "distinct (chain_keys ?c)" by (simp add: map_inv_def)
  from del_wf [OF wf, of key] assms(2)
  have m': "m' = m\<lparr>table := (table m)[?i := chain_remove key ?c], size_m := ?s,
      numOps := numOps m + 1\<rparr>"
    by auto
  show ?thesis
    unfolding m'
  proof (rule map_inv_slot [OF wf i])
    show "\<forall>j < length (table m). \<forall>k \<in> set (chain_keys (table m ! j)). unat k mod unat (capacity m) = j"
      using assms(1) by (simp add: map_inv_def)
    show "\<forall>c \<in> set (table m). distinct (chain_keys c)"
      using assms(1) by (simp add: map_inv_def)
    show "set (chain_keys (chain_remove key ?c)) \<subseteq> insert key (set (chain_keys ?c))"
      using set_remove1_subset [of key "chain_keys ?c"] by (auto simp: chain_keys_chain_remove)
    show "distinct (chain_keys (chain_remove key ?c))"
      using dc by (rule distinct_chain_remove)
    show "unat key mod unat (capacity m) = ?i"
      by (simp add: unat_mod)
    show "?s = int (entry_count m) + int (length (chain_keys (chain_remove key ?c)))
        - int (length (chain_keys ?c))"
      using assms(1) by (simp add: map_inv_def length_chain_remove)
  qed
qed

lemma do_call_wf:
  assumes "wf_map m"
  shows "\<exists>r m' es. do_call m c = Some (r, m', es) \<and> wf_map m' \<and> numOps m' = numOps m + 1"
proof (cases c)
  case (Get key)
  with get_wf [OF assms, of key] assms show ?thesis
    by (simp add: wf_map_def)
next
  case (Put key val)
  with put_wf [OF assms, of key val] assms show ?thesis
    by (simp add: wf_map_def)
next
  case (Del key)
  with del_wf [OF assms, of key] assms show ?thesis
    by (auto simp: wf_map_def)
qed

lemma map_inv_do_call:
  "map_inv m \<Longrightarrow> do_call m c = Some (r, m', es) \<Longrightarrow> map_inv m'"
  by (cases c) (auto intro: map_inv_get map_inv_put map_inv_del)

lemma run_wf:
  "wf_map m \<Longrightarrow>
   \<exists>m'. run m cs = Some m' \<and> wf_map m' \<and> numOps m' = numOps m + of_nat (length cs)"
proof (induction cs arbitrary: m)
  case Nil
  then show ?case by simp
next
  case (Cons c cs)
  from do_call_wf [OF Cons.prems, of c] obtain r m1 es
    where step: "do_call m c = Some (r, m1, es)" "wf_map m1" "numOps m1 = numOps m + 1"
    by blast
  from Cons.IH [OF step(2)] obtain m'
    where "run m1 cs = Some m'" "wf_map m'" "numOps m' = numOps m1 + of_nat (length cs)"
    by blast
  with step show ?case by simp
qed

lemma run_gets:
  "wf_map m \<Longrightarrow> run m (replicate n (Get key)) = Some (m\<lparr>numOps := numOps m + of_nat n\<rparr>)"
proof (induction n arbitrary: m)
  case 0
  then show ?case by simp
next
  case (Suc n)
  let ?m1 = "m\<lparr>numOps := numOps m + 1\<rparr>"
  from Suc.prems have "wf_map ?m1"
    by (simp add: wf_map_def)
  from Suc.IH [OF this] get_wf [OF Suc.prems, of key] show ?case
    by (simp add: add.assoc)
qed

lemma sint_of_nat_small: "n < 2 ^ 31 \<Longrightarrow> sint (of_nat n :: int32) = int n"
proof -
  assume n: "n < 2 ^ 31"
  have "sint (of_nat n :: int32) = sint (word_of_int (int n) :: int32)"
    by simp
  also have "\<dots> = signed_take_bit (LENGTH(32) - 1) (int n)"
    by (rule sint_sbintrunc')
  also have "\<dots> = int n"
  proof -
    from n have "int n < int (2 ^ 31)"
      by (simp only: of_nat_less_iff)
    then show ?thesis
      by (simp add: signed_take_bit_int_eq_self)
  qed
  finally show ?thesis .
qed

lemma map_inv_run: "map_inv m \<Longrightarrow> run m cs = Some m' \<Longrightarrow> map_inv m'"
proof (induction cs arbitrary: m)
  case Nil
  then show ?case by simp
next
  case (Cons c cs)
  then show ?case
    by (auto split: option.splits dest: map_inv_do_call)
qed

section \<open>Results of single calls\<close>

lemma get_result:
  assumes "wf_map m"
  shows "\<exists>es. get m key =
    Some (get_loop key (table m ! unat (key mod capacity m)), m\<lparr>numOps := numOps m + 1\<rparr>, es)"
  using get_wf [OF assms, of key] by simp

lemma put_result:
  assumes "wf_map m"
  shows "\<exists>m' es. put m key val = Some (get_loop key (table m ! unat (key mod capacity m)), m', es) \<and>
    wf_map m' \<and> capacity m' = capacity m \<and>
    table m' = (table m)[unat (key mod capacity m) :=
      chain_update key val (table m ! unat (key mod capacity m))] \<and>
    size_m m' = (if key \<in> set (chain_keys (table m ! unat (key mod capacity m)))
                 then size_m m else size_m m + 1) \<and>
    numOps m' = numOps m + 1"
  using put_wf [OF assms, of key val] assms by (simp add: wf_map_def)

lemma del_result:
  assumes "wf_map m"
  shows "\<exists>m' es. del m key = Some (get_loop key (table m ! unat (key mod capacity m)), m', es) \<and>
    wf_map m' \<and> capacity m' = capacity m \<and>
    table m' = (table m)[unat (key mod capacity m) :=
      chain_remove key (table m ! unat (key mod capacity m))] \<and>
    size_m m' = (if key \<in> set (chain_keys (table m ! unat (key mod capacity m)))
                 then size_m m - 1 else size_m m) \<and>
    numOps m' = numOps m + 1"
  using del_wf [OF assms, of key] assms by (auto simp: wf_map_def)

lemma wf_index: "wf_map m \<Longrightarrow> unat (key mod capacity m) < length (table m)"
  using searchIndex_less [of "capacity m" key] by (simp add: wf_map_def)

section \<open>The lock events of a call\<close>

lemma get_events:
  assumes "get m key = Some (r, m', es)"
  shows "one_at_a_time [] es \<and> locked_buckets es = [unat (key mod capacity m)]"
  using assms by (auto simp: get_def Let_def split: if_splits)

lemma put_events:
  assumes "put m key val = Some (r, m', es)"
  shows "one_at_a_time [] es \<and> locked_buckets es = [unat (key mod capacity m)]"
  using assms by (auto simp: put_def Let_def split: if_splits prod.splits)

lemma del_events:
  assumes "del m key = Some (r, m', es)"
  shows "locked_buckets es = [unat (key mod capacity m)]"
  using assms by (auto simp: del_def Let_def split: if_splits prod.splits ts_entry_p.splits)

text \<open>
  \<^verbatim>\<open>del\<close> keeps to the discipline on an empty chain, when it unlinks the head of the
  chain and when it finds nothing to unlink. When it unlinks a later entry it takes
  \<^verbatim>\<open>sizeLock\<close> before it releases the bucket lock.
\<close>

lemma del_one_at_a_time:
  assumes "del m key = Some (r, m', es)"
  shows "one_at_a_time [] es \<longleftrightarrow>
    (case table m ! unat (key mod capacity m) of
       NULL \<Rightarrow> True
     | Entry k v nxt \<Rightarrow> k = key \<or> key \<notin> set (chain_keys nxt))"
proof (cases "table m ! unat (key mod capacity m)")
  case NULL
  with assms show ?thesis
    by (auto simp: del_def Let_def split: if_splits)
next
  case (Entry k v nxt)
  show ?thesis
  proof (cases "k = key")
    case True
    with Entry assms show ?thesis
      by (auto simp: del_def Let_def split: if_splits)
  next
    case False
    then have "key \<noteq> k" by simp
    note loop = del_loop_chain_remove [OF this, of v nxt]
    from False Entry assms show ?thesis
      by (auto simp: del_def Let_def loop simp del: del_loop.simps split: if_splits)
  qed
qed

section \<open>The claims\<close>

text \<open>
  C1. On a well-formed map, \<^verbatim>\<open>put(map, k, v)\<close> returns, and \<^verbatim>\<open>get(map, k)\<close> on the map
  it leaves returns \<open>v\<close>: whatever the chain of the key's bucket held before (nothing,
  the key with another value, or other keys).
\<close>

theorem put_then_get:
  assumes "wf_map m"
  shows "\<exists>r m' es m'' es'.
    put m key val = Some (r, m', es) \<and> get m' key = Some (val, m'', es')"
proof -
  let ?i = "unat (key mod capacity m)"
  from put_result [OF assms, of key val] obtain m' es
    where p: "put m key val = Some (get_loop key (table m ! ?i), m', es)"
      and m': "wf_map m'" "capacity m' = capacity m"
        "table m' = (table m)[?i := chain_update key val (table m ! ?i)]"
    by blast
  from get_result [OF m'(1), of key] obtain es'
    where "get m' key = Some (get_loop key (table m' ! unat (key mod capacity m')),
      m'\<lparr>numOps := numOps m' + 1\<rparr>, es')"
    by blast
  with m' wf_index [OF assms, of key]
  have "get m' key = Some (val, m'\<lparr>numOps := numOps m' + 1\<rparr>, es')"
    by (simp add: get_loop_chain_update)
  with p show ?thesis by blast
qed

theorem put_then_get_witness:
  "wf_map \<lparr>table = [NULL, Entry 5 100 NULL, NULL, NULL], numOps = 1, capacity = 4, size_m = 1\<rparr> \<and>
   (\<exists>r m' es m'' es'.
     put \<lparr>table = [NULL, Entry 5 100 NULL, NULL, NULL], numOps = 1, capacity = 4, size_m = 1\<rparr>
       9 200 = Some (r, m', es) \<and>
     get m' 9 = Some (200, m'', es'))"
proof -
  have wf: "wf_map \<lparr>table = [NULL, Entry 5 100 NULL, NULL, NULL], numOps = 1, capacity = 4, size_m = 1\<rparr>"
    by (simp add: wf_map_def)
  from put_then_get [OF wf, of 9 200] wf show ?thesis by blast
qed

text \<open>
  C3. On a well-formed map, after \<^verbatim>\<open>put(map, k, v1)\<close> a second \<^verbatim>\<open>put(map, k, v2)\<close>
  returns \<open>v1\<close>, the \<^verbatim>\<open>get(map, k)\<close> that follows returns \<open>v2\<close>, and the second put
  leaves \<^verbatim>\<open>size\<close> and the keys of every chain as they were: it creates no entry.
\<close>

theorem put_twice:
  assumes "wf_map m"
  shows "\<exists>r1 m1 es1 m2 es2 m3 es3.
    put m key v1 = Some (r1, m1, es1) \<and>
    put m1 key v2 = Some (v1, m2, es2) \<and>
    get m2 key = Some (v2, m3, es3) \<and>
    size_m m2 = size_m m1 \<and>
    map chain_keys (table m2) = map chain_keys (table m1)"
proof -
  let ?i = "unat (key mod capacity m)"
  let ?c1 = "chain_update key v1 (table m ! ?i)"
  note i = wf_index [OF assms, of key]
  from put_result [OF assms, of key v1] obtain m1 es1
    where p1: "put m key v1 = Some (get_loop key (table m ! ?i), m1, es1)"
      and m1: "wf_map m1" "capacity m1 = capacity m" "table m1 = (table m)[?i := ?c1]"
    by blast
  from m1 i have c1: "table m1 ! unat (key mod capacity m1) = ?c1"
    by simp
  have in1: "key \<in> set (chain_keys ?c1)"
    by (simp add: chain_keys_chain_update)
  from put_result [OF m1(1), of key v2] c1 in1 m1(2) obtain m2 es2
    where p2: "put m1 key v2 = Some (get_loop key ?c1, m2, es2)"
      and m2: "wf_map m2" "capacity m2 = capacity m"
        "table m2 = (table m1)[?i := chain_update key v2 ?c1]"
        "size_m m2 = size_m m1"
    by auto
  from m2(3) m1(3) i have c2: "table m2 ! unat (key mod capacity m2) = chain_update key v2 ?c1"
    by (simp add: m2(2))
  from get_result [OF m2(1), of key] c2 obtain es3
    where g: "get m2 key = Some (v2, m2\<lparr>numOps := numOps m2 + 1\<rparr>, es3)"
    by (auto simp: get_loop_chain_update)
  have "chain_keys (chain_update key v2 ?c1) = chain_keys (table m1 ! ?i)"
    using in1 c1 m1(2) by (simp add: chain_keys_chain_update)
  then have "map chain_keys (table m2) = map chain_keys ((table m1)[?i := table m1 ! ?i])"
    unfolding m2(3) by (simp only: map_update)
  then have "map chain_keys (table m2) = map chain_keys (table m1)"
    by simp
  with p1 p2 g m2(4) show ?thesis
    by (simp add: get_loop_chain_update)
qed

theorem put_twice_witness:
  "wf_map (initmap 4) \<and>
   (\<exists>r1 m1 es1 m2 es2 m3 es3.
     put (initmap 4) 5 100 = Some (r1, m1, es1) \<and>
     put m1 5 300 = Some (100, m2, es2) \<and>
     get m2 5 = Some (300, m3, es3) \<and>
     size_m m2 = size_m m1 \<and>
     map chain_keys (table m2) = map chain_keys (table m1))"
proof -
  have wf: "wf_map (initmap 4)"
    by (rule wf_initmap) simp
  from put_twice [OF wf, of 5 100 300] wf show ?thesis by blast
qed

text \<open>
  C6. On a well-formed map, \<^verbatim>\<open>del(map, k)\<close> for a key that no chain stores returns
  \<^verbatim>\<open>INT_MAX\<close> and leaves \<^verbatim>\<open>size\<close> and the table as they were, whether the key's bucket
  is empty or holds other keys.
\<close>

theorem del_absent:
  assumes "wf_map m" and "\<not> stored m key"
  shows "\<exists>m' es. del m key = Some (INT_MAX, m', es) \<and> size_m m' = size_m m \<and> table m' = table m"
proof -
  let ?i = "unat (key mod capacity m)"
  note i = wf_index [OF assms(1), of key]
  then have "table m ! ?i \<in> set (table m)" by simp
  with assms(2) have absent: "key \<notin> set (chain_keys (table m ! ?i))"
    by (auto simp: stored_def)
  from del_result [OF assms(1), of key] absent show ?thesis
    by (auto simp: get_loop_absent chain_remove_absent)
qed

theorem del_absent_witness:
  "wf_map \<lparr>table = [NULL, Entry 5 100 NULL, NULL, NULL], numOps = 1, capacity = 4, size_m = 1\<rparr> \<and>
   \<not> stored \<lparr>table = [NULL, Entry 5 100 NULL, NULL, NULL], numOps = 1, capacity = 4, size_m = 1\<rparr> 9 \<and>
   (\<exists>m' es.
     del \<lparr>table = [NULL, Entry 5 100 NULL, NULL, NULL], numOps = 1, capacity = 4, size_m = 1\<rparr> 9
       = Some (INT_MAX, m', es) \<and>
     size_m m' = 1 \<and> table m' = [NULL, Entry 5 100 NULL, NULL, NULL])"
proof -
  let ?m = "\<lparr>table = [NULL, Entry 5 100 NULL, NULL, NULL], numOps = 1, capacity = 4, size_m = 1\<rparr>"
  have wf: "wf_map ?m"
    by (simp add: wf_map_def)
  have absent: "\<not> stored ?m 9"
    by (simp add: stored_def)
  from del_absent [OF wf absent] wf absent show ?thesis by simp
qed

text \<open>
  C10. On a well-formed map \<^verbatim>\<open>get(map, k)\<close> returns, and the map it leaves has the table
  (every chain with its keys, values and links), the \<^verbatim>\<open>size\<close> and the capacity of the
  map before; \<^verbatim>\<open>numOps\<close> is one more.
\<close>

theorem get_frame:
  assumes "wf_map m"
  shows "\<exists>r m' es. get m key = Some (r, m', es) \<and>
    table m' = table m \<and> size_m m' = size_m m \<and> capacity m' = capacity m \<and>
    numOps m' = numOps m + 1"
  using get_result [OF assms, of key] by auto

theorem get_frame_witness:
  "wf_map \<lparr>table = [NULL, Entry 5 100 NULL, NULL, NULL], numOps = 1, capacity = 4, size_m = 1\<rparr> \<and>
   (\<exists>r m' es.
     get \<lparr>table = [NULL, Entry 5 100 NULL, NULL, NULL], numOps = 1, capacity = 4, size_m = 1\<rparr> 5
       = Some (r, m', es) \<and>
     table m' = [NULL, Entry 5 100 NULL, NULL, NULL] \<and> size_m m' = 1 \<and> capacity m' = 4 \<and>
     numOps m' = 2)"
proof -
  let ?m = "\<lparr>table = [NULL, Entry 5 100 NULL, NULL, NULL], numOps = 1, capacity = 4, size_m = 1\<rparr>"
  have wf: "wf_map ?m"
    by (simp add: wf_map_def)
  from get_frame [OF wf, of 5] wf show ?thesis by simp
qed

text \<open>
  C4. On a map that satisfies the invariant, after \<^verbatim>\<open>put(map, k, v)\<close> the call
  \<^verbatim>\<open>del(map, k)\<close> returns \<open>v\<close>, the \<^verbatim>\<open>get(map, k)\<close> that follows returns \<^verbatim>\<open>INT_MAX\<close>,
  and \<^verbatim>\<open>size\<close> after the del is one less than before it, wherever the entry stands in
  its chain.
\<close>

theorem put_then_del:
  assumes "map_inv m"
  shows "\<exists>r1 m1 es1 m2 es2 m3 es3.
    put m key val = Some (r1, m1, es1) \<and>
    del m1 key = Some (val, m2, es2) \<and>
    get m2 key = Some (INT_MAX, m3, es3) \<and>
    size_m m2 = size_m m1 - 1"
proof -
  let ?i = "unat (key mod capacity m)"
  let ?c1 = "chain_update key val (table m ! ?i)"
  from assms have wf: "wf_map m" by (simp add: map_inv_def)
  note i = wf_index [OF wf, of key]
  from put_result [OF wf, of key val] obtain r1 m1 es1
    where p: "put m key val = Some (r1, m1, es1)"
      and m1: "wf_map m1" "capacity m1 = capacity m" "table m1 = (table m)[?i := ?c1]"
    by blast
  from m1 i have c1: "table m1 ! unat (key mod capacity m1) = ?c1"
    by simp
  have in1: "key \<in> set (chain_keys ?c1)"
    by (simp add: chain_keys_chain_update)
  from i have "table m ! ?i \<in> set (table m)" by simp
  with assms have "distinct (chain_keys (table m ! ?i))"
    by (simp add: map_inv_def)
  then have d1: "distinct (chain_keys ?c1)"
    by (rule distinct_chain_update)
  from del_result [OF m1(1), of key] c1 in1 m1(2) obtain m2 es2
    where d: "del m1 key = Some (get_loop key ?c1, m2, es2)"
      and m2: "wf_map m2" "capacity m2 = capacity m"
        "table m2 = (table m1)[?i := chain_remove key ?c1]"
        "size_m m2 = size_m m1 - 1"
    by auto
  from m2(3) m1(3) i have c2: "table m2 ! unat (key mod capacity m2) = chain_remove key ?c1"
    by (simp add: m2(2))
  from get_result [OF m2(1), of key] c2 d1 obtain es3
    where g: "get m2 key = Some (INT_MAX, m2\<lparr>numOps := numOps m2 + 1\<rparr>, es3)"
    by (auto simp: get_loop_chain_remove)
  from p d g m2(4) show ?thesis
    by (simp add: get_loop_chain_update)
qed

theorem put_then_del_witness:
  "map_inv \<lparr>table = [NULL, Entry 5 100 NULL, NULL, NULL], numOps = 1, capacity = 4, size_m = 1\<rparr> \<and>
   (\<exists>r1 m1 es1 m2 es2 m3 es3.
     put \<lparr>table = [NULL, Entry 5 100 NULL, NULL, NULL], numOps = 1, capacity = 4, size_m = 1\<rparr>
       9 200 = Some (r1, m1, es1) \<and>
     del m1 9 = Some (200, m2, es2) \<and>
     get m2 9 = Some (INT_MAX, m3, es3) \<and>
     size_m m2 = size_m m1 - 1)"
proof -
  let ?m = "\<lparr>table = [NULL, Entry 5 100 NULL, NULL, NULL], numOps = 1, capacity = 4, size_m = 1\<rparr>"
  have run: "run (initmap 4) [Put 5 100] = Some ?m"
    by (simp add: initmap_def put_def)
  have "map_inv (initmap 4)"
    by (rule map_inv_initmap) simp
  then have inv: "map_inv ?m"
    using run by (rule map_inv_run)
  from put_then_del [OF inv, of 9 200] inv show ?thesis by blast
qed



text \<open>
  C8, as the code has it. Every run of \<open>N\<close> calls from \<^verbatim>\<open>initmap\<close> with a positive
  capacity ends in a map whose \<^verbatim>\<open>numOps\<close> is \<open>N\<close> reduced to the 32 bits of the field; it
  is \<open>N\<close> itself whenever \<open>N\<close> is at most \<^verbatim>\<open>INT_MAX\<close>. On that map every further call,
  whatever it finds, returns and adds exactly one to \<^verbatim>\<open>numOps\<close>, wrapping around at the
  top.
\<close>

theorem numOps_counts_calls:
  assumes "0 < sint cap"
  shows "\<exists>m. run (initmap cap) cs = Some m \<and> numOps m = of_nat (length cs) \<and>
    (length cs \<le> unat INT_MAX \<longrightarrow> sint (numOps m) = int (length cs)) \<and>
    (\<forall>c. \<exists>r m' es. do_call m c = Some (r, m', es) \<and> numOps m' = numOps m + 1)"
proof -
  from run_wf [OF wf_initmap [OF assms], of cs] obtain m
    where r: "run (initmap cap) cs = Some m" and wf: "wf_map m"
      and n: "numOps m = numOps (initmap cap) + of_nat (length cs)"
    by blast
  from n have eq: "numOps m = of_nat (length cs)"
    by (simp add: initmap_def)
  have "sint (numOps m) = int (length cs)" if "length cs \<le> unat INT_MAX"
  proof -
    from that have "length cs < 2 ^ 31"
      by (simp add: INT_MAX_def)
    from sint_of_nat_small [OF this] eq show ?thesis by simp
  qed
  moreover have "\<exists>r m' es. do_call m c = Some (r, m', es) \<and> numOps m' = numOps m + 1" for c
    using do_call_wf [OF wf, of c] by blast
  ultimately show ?thesis
    using r eq by blast
qed

theorem numOps_counts_calls_witness:
  "0 < sint (4 :: int32) \<and>
   length [Put 5 100, Get 9, Del 9, Del 5, Get 5] \<le> unat INT_MAX \<and>
   (\<exists>m. run (initmap 4) [Put 5 100, Get 9, Del 9, Del 5, Get 5] = Some m \<and>
      numOps m = 5 \<and> sint (numOps m) = 5 \<and>
      (\<forall>c. \<exists>r m' es. do_call m c = Some (r, m', es) \<and> numOps m' = numOps m + 1))"
proof -
  let ?cs = "[Put 5 100, Get 9, Del 9, Del 5, Get 5]"
  have pos: "0 < sint (4 :: int32)" by simp
  have len: "length ?cs \<le> unat INT_MAX" by (simp add: INT_MAX_def)
  from numOps_counts_calls [OF pos, of ?cs]
  obtain m
    where m: "run (initmap 4) ?cs = Some m"
      "numOps m = of_nat (length ?cs)"
      "length ?cs \<le> unat INT_MAX \<longrightarrow> sint (numOps m) = int (length ?cs)"
      "\<forall>c. \<exists>r m' es. do_call m c = Some (r, m', es) \<and> numOps m' = numOps m + 1"
    by blast
  from m(2) have "numOps m = 5" by simp
  moreover from m(3) len have "sint (numOps m) = 5" by simp
  ultimately show ?thesis
    using pos len m(1) m(4) by blast
qed

text \<open>
  C8, as the claim has it, fails once the calls outnumber what the field can hold. After
  \<open>2 ^ 31\<close> calls of \<^verbatim>\<open>get\<close> on the map of \<^verbatim>\<open>initmap(4)\<close>, \<^verbatim>\<open>numOps\<close> holds the bit
  pattern \<open>2 ^ 31\<close>, which as an \<^verbatim>\<open>int\<close> is \<open>- (2 ^ 31)\<close>, not the number of calls; after
  \<open>2 ^ 32\<close> calls it holds 0.
\<close>

theorem numOps_overflows:
  "run (initmap 4) (replicate (2 ^ 31) (Get 1)) =
     Some \<lparr>table = [NULL, NULL, NULL, NULL], numOps = 2 ^ 31, capacity = 4, size_m = 0\<rparr> \<and>
   sint (2 ^ 31 :: int32) = - (2 ^ 31) \<and>
   run (initmap 4) (replicate (2 ^ 32) (Get 1)) =
     Some \<lparr>table = [NULL, NULL, NULL, NULL], numOps = 0, capacity = 4, size_m = 0\<rparr>"
proof -
  have wf: "wf_map (initmap 4)"
    by (rule wf_initmap) simp
  have a: "(initmap 4)\<lparr>numOps := numOps (initmap 4) + of_nat (2 ^ 31)\<rparr> =
      \<lparr>table = [NULL, NULL, NULL, NULL], numOps = 2 ^ 31, capacity = 4, size_m = 0\<rparr>"
    by (simp add: initmap_def)
  have b: "(initmap 4)\<lparr>numOps := numOps (initmap 4) + of_nat (2 ^ 32)\<rparr> =
      \<lparr>table = [NULL, NULL, NULL, NULL], numOps = 0, capacity = 4, size_m = 0\<rparr>"
    by (simp add: initmap_def)
  have c: "sint (2 ^ 31 :: int32) = - (2 ^ 31)"
    by simp
  have d: "run (initmap 4) (replicate (2 ^ 31) (Get 1)) =
      Some \<lparr>table = [NULL, NULL, NULL, NULL], numOps = 2 ^ 31, capacity = 4, size_m = 0\<rparr>"
    using run_gets [OF wf, of "2 ^ 31" 1] by (simp only: a)
  have e: "run (initmap 4) (replicate (2 ^ 32) (Get 1)) =
      Some \<lparr>table = [NULL, NULL, NULL, NULL], numOps = 0, capacity = 4, size_m = 0\<rparr>"
    using run_gets [OF wf, of "2 ^ 32" 1] by (simp only: b)
  from d c e show ?thesis
    by (intro conjI)
qed

text \<open>
  C7. On a well-formed map with a positive capacity, \<^verbatim>\<open>get\<close>, \<^verbatim>\<open>put\<close> and \<^verbatim>\<open>del\<close> work
  on the same bucket for a key, negative or not: the bucket whose index \<open>i\<close> is the key's
  bit pattern read as an unsigned number, modulo the capacity. The index is below the
  capacity; each operation locks bucket \<open>i\<close> and no other; \<^verbatim>\<open>get\<close> returns what the scan
  of chain \<open>i\<close> finds, and \<^verbatim>\<open>put\<close> and \<^verbatim>\<open>del\<close> leave every other slot as it was.
\<close>

theorem same_bucket_index:
  assumes "wf_map m" and "0 < sint (capacity m)"
    and "i = nat ((sint key mod 2 ^ 32) mod sint (capacity m))"
  shows "i < nat (sint (capacity m)) \<and>
    (\<exists>m' es. get m key = Some (get_loop key (table m ! i), m', es) \<and> locked_buckets es = [i]) \<and>
    (\<exists>r m' es. put m key val = Some (r, m', es) \<and> locked_buckets es = [i] \<and>
       (\<forall>j. j \<noteq> i \<longrightarrow> table m' ! j = table m ! j)) \<and>
    (\<exists>r m' es. del m key = Some (r, m', es) \<and> locked_buckets es = [i] \<and>
       (\<forall>j. j \<noteq> i \<longrightarrow> table m' ! j = table m ! j))"
proof -
  have "unat (key mod capacity m) = unat key mod unat (capacity m)"
    by (simp add: unat_mod)
  also have "\<dots> = nat (sint key mod 2 ^ 32) mod nat (sint (capacity m))"
    using sint_pos_unat [OF assms(2)] unat_sint_mod [of key] by simp
  also have "\<dots> = i"
    using assms(2) by (simp add: assms(3) nat_mod_distrib)
  finally have i: "unat (key mod capacity m) = i" .
  from assms(1,2) have less: "i < nat (sint (capacity m))"
    using searchIndex_less [of "capacity m" key] by (simp add: i sint_pos_unat wf_map_def)
  from get_result [OF assms(1), of key] obtain es
    where g: "get m key = Some (get_loop key (table m ! i), m\<lparr>numOps := numOps m + 1\<rparr>, es)"
    by (auto simp: i)
  from put_result [OF assms(1), of key val] obtain r2 m2 es2
    where p: "put m key val = Some (r2, m2, es2)"
      and m2: "table m2 = (table m)[i := chain_update key val (table m ! i)]"
    by (auto simp: i)
  from del_result [OF assms(1), of key] obtain r3 m3 es3
    where d: "del m key = Some (r3, m3, es3)"
      and m3: "table m3 = (table m)[i := chain_remove key (table m ! i)]"
    by (auto simp: i)
  have "locked_buckets es = [i]"
    using get_events [OF g] by (simp add: i)
  moreover have "locked_buckets es2 = [i]"
    using put_events [OF p] by (simp add: i)
  moreover have "locked_buckets es3 = [i]"
    using del_events [OF d] by (simp add: i)
  ultimately show ?thesis
    using less g p d m2 m3 by simp
qed

theorem same_bucket_index_witness:
  "wf_map (initmap 4) \<and> 0 < sint (capacity (initmap 4)) \<and>
   (3 :: nat) = nat ((sint (- 5 :: int32) mod 2 ^ 32) mod sint (capacity (initmap 4))) \<and>
   (3 :: nat) < nat (sint (capacity (initmap 4))) \<and>
   (\<exists>m' es. get (initmap 4) (- 5) = Some (get_loop (- 5) (table (initmap 4) ! 3), m', es) \<and>
      locked_buckets es = [3]) \<and>
   (\<exists>r m' es. put (initmap 4) (- 5) 7 = Some (r, m', es) \<and> locked_buckets es = [3] \<and>
      (\<forall>j. j \<noteq> 3 \<longrightarrow> table m' ! j = table (initmap 4) ! j)) \<and>
   (\<exists>r m' es. del (initmap 4) (- 5) = Some (r, m', es) \<and> locked_buckets es = [3] \<and>
      (\<forall>j. j \<noteq> 3 \<longrightarrow> table m' ! j = table (initmap 4) ! j))"
proof -
  have wf: "wf_map (initmap 4)"
    by (rule wf_initmap) simp
  have pos: "0 < sint (capacity (initmap 4))"
    by (simp add: initmap_def)
  have i: "(3 :: nat) = nat ((sint (- 5 :: int32) mod 2 ^ 32) mod sint (capacity (initmap 4)))"
    by (simp add: initmap_def)
  from same_bucket_index [OF wf pos i, of 7] wf pos i show ?thesis
    by blast
qed

text \<open>
  C9, as the code has it. \<^verbatim>\<open>initmap\<close> makes no check of its argument: for every capacity
  it returns a map with \<^verbatim>\<open>numOps\<close> 0, \<^verbatim>\<open>size\<close> 0, the capacity as given and one empty slot
  for each index from 0 below the capacity. For a capacity of zero or less that is a map
  with no slot, on which \<^verbatim>\<open>get\<close>, \<^verbatim>\<open>put\<close> and \<^verbatim>\<open>del\<close> have no defined result.
\<close>

theorem initmap_any_capacity:
  "numOps (initmap cap) = 0 \<and> size_m (initmap cap) = 0 \<and> capacity (initmap cap) = cap \<and>
   table (initmap cap) = replicate (nat (sint cap)) NULL \<and>
   (sint cap \<le> 0 \<longrightarrow>
      table (initmap cap) = [] \<and> get (initmap cap) key = None \<and>
      put (initmap cap) key val = None \<and> del (initmap cap) key = None)"
proof -
  have fields: "numOps (initmap cap) = 0" "size_m (initmap cap) = 0" "capacity (initmap cap) = cap"
    by (simp_all add: initmap_def)
  have "get (initmap cap) key = None \<and> put (initmap cap) key val = None \<and>
      del (initmap cap) key = None" if "table (initmap cap) = []"
    using that by (simp add: get_def put_def del_def Let_def)
  then show ?thesis
    using fields by (simp add: table_initmap)
qed

theorem initmap_any_capacity_witness:
  "sint (- 2 :: int32) \<le> 0 \<and>
   initmap (- 2) = \<lparr>table = [], numOps = 0, capacity = - 2, size_m = 0\<rparr> \<and>
   get (initmap (- 2)) 7 = None \<and> put (initmap (- 2)) 7 1 = None \<and> del (initmap (- 2)) 7 = None"
proof -
  have neg: "sint (- 2 :: int32) \<le> 0" by simp
  from initmap_any_capacity [of "- 2" 7 1] neg show ?thesis
    by simp
qed

text \<open>
  C9, as the claim has it, fails: \<^verbatim>\<open>initmap(0)\<close> is not rejected, it returns a map.
\<close>

theorem initmap_zero_not_rejected:
  "sint (0 :: int32) \<le> 0 \<and>
   initmap 0 = \<lparr>table = [], numOps = 0, capacity = 0, size_m = 0\<rparr>"
  by (simp add: initmap_def)

text \<open>
  C2 fails in \<^verbatim>\<open>del\<close>. On the map that \<^verbatim>\<open>put(5, 100)\<close> and \<^verbatim>\<open>put(9, 200)\<close> make of
  \<^verbatim>\<open>initmap(4)\<close>, key 9 is the second entry of chain 1, and \<^verbatim>\<open>del(map, 9)\<close> locks
  \<^verbatim>\<open>sizeLock\<close> while it still holds the lock of bucket 1.
\<close>

theorem del_holds_two_locks:
  "run (initmap 4) [Put 5 100, Put 9 200] =
     Some \<lparr>table = [NULL, Entry 5 100 (Entry 9 200 NULL), NULL, NULL],
            numOps = 2, capacity = 4, size_m = 2\<rparr> \<and>
   del \<lparr>table = [NULL, Entry 5 100 (Entry 9 200 NULL), NULL, NULL],
         numOps = 2, capacity = 4, size_m = 2\<rparr> 9 =
     Some (200,
       \<lparr>table = [NULL, Entry 5 100 NULL, NULL, NULL], numOps = 3, capacity = 4, size_m = 1\<rparr>,
       [Lock OpLock, Unlock OpLock, Lock (BucketLock 1), Lock SizeLock, Unlock SizeLock,
        Unlock (BucketLock 1)]) \<and>
   \<not> one_at_a_time []
       [Lock OpLock, Unlock OpLock, Lock (BucketLock 1), Lock SizeLock, Unlock SizeLock,
        Unlock (BucketLock 1)]"
  by (simp add: initmap_def put_def del_def)

end
